theory Spec2Isabelle
  imports Main "HOL-Library.Word" "HOL-Library.AList"
begin

unbundle bit_operations_syntax

section \<open>Python text and the operations of \<open>str\<close> the checksum stamp uses\<close>

text \<open>
  A Python \<open>str\<close> is a \<^typ>\<open>string\<close>: each \<^typ>\<open>char\<close> stands for the code point
  of the same number (U+0000 to U+00FF). A file holds a text; reading it in text mode
  delivers a carriage return, alone or followed by a line feed, as a line feed, so a
  line that is read ends with the line feed and nothing else.
\<close>

definition newline :: char where
  "newline = CHR 0x0A"

text \<open>\<open>str.isspace\<close> on one character, for the code points below 256.\<close>

definition isspace :: "char \<Rightarrow> bool" where
  "isspace c = (let n = (of_char c :: nat) in
     (9 \<le> n \<and> n \<le> 13) \<or> (28 \<le> n \<and> n \<le> 32) \<or> n = 133 \<or> n = 160)"

text \<open>\<open>s.strip()\<close>: whitespace removed from both ends.\<close>

definition strip :: "string \<Rightarrow> string" where
  "strip s = rev (dropWhile isspace (rev (dropWhile isspace s)))"

text \<open>\<open>s.startswith(p)\<close>.\<close>

definition startswith :: "string \<Rightarrow> string \<Rightarrow> bool" where
  "startswith s p = (take (length p) s = p)"

text \<open>
  \<open>s.replace(old, new)\<close>: every occurrence of \<open>old\<close>, found from the left and not
  overlapping, becomes \<open>new\<close>; an empty \<open>old\<close> matches before every character and
  at the end.
\<close>

function replace :: "string \<Rightarrow> string \<Rightarrow> string \<Rightarrow> string" where
  "replace old new s =
     (if old = [] then new @ concat (map (\<lambda>c. c # new) s)
      else if s = [] then []
      else if startswith s old then new @ replace old new (drop (length old) s)
      else hd s # replace old new (tl s))"
  by pat_completeness auto
termination
  by (relation "measure (\<lambda>(old, new, s). length s)") auto

declare replace.simps [simp del]

text \<open>\<open>list(f)\<close> on a file open for reading: the text cut after every line feed.\<close>

fun readlines :: "string \<Rightarrow> string list" where
  "readlines [] = []"
| "readlines (c # cs) =
     (if c = newline then [c] # readlines cs
      else (case readlines cs of [] \<Rightarrow> [[c]] | l # ls \<Rightarrow> (c # l) # ls))"

text \<open>
  What \<open>open(path, 'r')\<close> delivers of the text of a file (universal newlines): a
  carriage return followed by a line feed, and a carriage return alone, become a line
  feed.
\<close>

definition CR :: char where
  "CR = CHR 0x0D"

fun universal_newlines :: "string \<Rightarrow> string" where
  "universal_newlines [] = []"
| "universal_newlines [c] = (if c = CR then [newline] else [c])"
| "universal_newlines (c # d # cs) =
     (if c = CR then
        (if d = newline then newline # universal_newlines cs
         else newline # universal_newlines (d # cs))
      else c # universal_newlines (d # cs))"

text \<open>\<open>s.encode('utf-8')\<close>: one byte below U+0080, two bytes from there to U+00FF.\<close>

definition utf8_char :: "char \<Rightarrow> 8 word list" where
  "utf8_char c = (let n = (of_char c :: nat) in
     if n < 128 then [of_nat n] else [of_nat (192 + n div 64), of_nat (128 + n mod 64)])"

definition encode_utf8 :: "string \<Rightarrow> 8 word list" where
  "encode_utf8 s = concat (map utf8_char s)"

section \<open>\<open>hashlib.sha256\<close>\<close>

definition K256 :: "32 word list" where
  "K256 =
    [0x428A2F98, 0x71374491, 0xB5C0FBCF, 0xE9B5DBA5, 0x3956C25B, 0x59F111F1,
     0x923F82A4, 0xAB1C5ED5, 0xD807AA98, 0x12835B01, 0x243185BE, 0x550C7DC3,
     0x72BE5D74, 0x80DEB1FE, 0x9BDC06A7, 0xC19BF174, 0xE49B69C1, 0xEFBE4786,
     0x0FC19DC6, 0x240CA1CC, 0x2DE92C6F, 0x4A7484AA, 0x5CB0A9DC, 0x76F988DA,
     0x983E5152, 0xA831C66D, 0xB00327C8, 0xBF597FC7, 0xC6E00BF3, 0xD5A79147,
     0x06CA6351, 0x14292967, 0x27B70A85, 0x2E1B2138, 0x4D2C6DFC, 0x53380D13,
     0x650A7354, 0x766A0ABB, 0x81C2C92E, 0x92722C85, 0xA2BFE8A1, 0xA81A664B,
     0xC24B8B70, 0xC76C51A3, 0xD192E819, 0xD6990624, 0xF40E3585, 0x106AA070,
     0x19A4C116, 0x1E376C08, 0x2748774C, 0x34B0BCB5, 0x391C0CB3, 0x4ED8AA4A,
     0x5B9CCA4F, 0x682E6FF3, 0x748F82EE, 0x78A5636F, 0x84C87814, 0x8CC70208,
     0x90BEFFFA, 0xA4506CEB, 0xBEF9A3F7, 0xC67178F2]"

type_synonym sha_state =
  "32 word \<times> 32 word \<times> 32 word \<times> 32 word \<times> 32 word \<times> 32 word \<times> 32 word \<times> 32 word"

definition H256 :: sha_state where
  "H256 = (0x6A09E667, 0xBB67AE85, 0x3C6EF372, 0xA54FF53A,
           0x510E527F, 0x9B05688C, 0x1F83D9AB, 0x5BE0CD19)"

definition Ch :: "32 word \<Rightarrow> 32 word \<Rightarrow> 32 word \<Rightarrow> 32 word" where
  "Ch x y z = (x AND y) XOR (NOT x AND z)"

definition Maj :: "32 word \<Rightarrow> 32 word \<Rightarrow> 32 word \<Rightarrow> 32 word" where
  "Maj x y z = (x AND y) XOR (x AND z) XOR (y AND z)"

definition bsig0 :: "32 word \<Rightarrow> 32 word" where
  "bsig0 x = word_rotr 2 x XOR word_rotr 13 x XOR word_rotr 22 x"

definition bsig1 :: "32 word \<Rightarrow> 32 word" where
  "bsig1 x = word_rotr 6 x XOR word_rotr 11 x XOR word_rotr 25 x"

definition ssig0 :: "32 word \<Rightarrow> 32 word" where
  "ssig0 x = word_rotr 7 x XOR word_rotr 18 x XOR drop_bit 3 x"

definition ssig1 :: "32 word \<Rightarrow> 32 word" where
  "ssig1 x = word_rotr 17 x XOR word_rotr 19 x XOR drop_bit 10 x"

text \<open>
  Padding: the byte 0x80, zero bytes up to 56 modulo 64, then the length of the
  message in bits as 8 bytes, most significant first.
\<close>

definition be64 :: "64 word \<Rightarrow> 8 word list" where
  "be64 n = map (\<lambda>i. ucast (drop_bit (8 * (7 - i)) n)) [0..<8]"

definition pad :: "8 word list \<Rightarrow> 8 word list" where
  "pad m = m @ [0x80] @ replicate ((119 - length m mod 64) mod 64) 0
             @ be64 (of_nat (8 * length m))"

definition blocks :: "8 word list \<Rightarrow> 8 word list list" where
  "blocks m = map (\<lambda>i. take 64 (drop (64 * i) m)) [0..<length m div 64]"

definition be32 :: "8 word list \<Rightarrow> 32 word" where
  "be32 bs = foldl (\<lambda>acc b. push_bit 8 acc OR ucast b) 0 bs"

definition block_words :: "8 word list \<Rightarrow> 32 word list" where
  "block_words blk = map (\<lambda>j. be32 (take 4 (drop (4 * j) blk))) [0..<16]"

fun schedule :: "nat \<Rightarrow> 32 word list \<Rightarrow> 32 word list" where
  "schedule 0 w = w"
| "schedule (Suc n) w =
     schedule n (w @ [ssig1 (w ! (length w - 2)) + w ! (length w - 7)
                      + ssig0 (w ! (length w - 15)) + w ! (length w - 16)])"

fun sha_round :: "sha_state \<Rightarrow> 32 word \<times> 32 word \<Rightarrow> sha_state" where
  "sha_round (a, b, c, d, e, f, g, h) (k, w) =
     (let t1 = h + bsig1 e + Ch e f g + k + w;
          t2 = bsig0 a + Maj a b c
      in (t1 + t2, a, b, c, d + t1, e, f, g))"

fun add_state :: "sha_state \<Rightarrow> sha_state \<Rightarrow> sha_state" where
  "add_state (a, b, c, d, e, f, g, h) (a', b', c', d', e', f', g', h') =
     (a + a', b + b', c + c', d + d', e + e', f + f', g + g', h + h')"

definition compress :: "sha_state \<Rightarrow> 8 word list \<Rightarrow> sha_state" where
  "compress st blk =
     add_state st (foldl sha_round st (zip K256 (schedule 48 (block_words blk))))"

definition sha256 :: "8 word list \<Rightarrow> sha_state" where
  "sha256 m = foldl compress H256 (blocks (pad m))"

text \<open>\<open>hexdigest()\<close>: the eight words, most significant digit first, in lowercase.\<close>

definition hexdigit :: "nat \<Rightarrow> char" where
  "hexdigit n = ''0123456789abcdef'' ! (n mod 16)"

definition hex32 :: "32 word \<Rightarrow> string" where
  "hex32 w = map (\<lambda>i. hexdigit (unat (drop_bit (4 * (7 - i)) w AND 15))) [0..<8]"

fun hexdigest :: "sha_state \<Rightarrow> string" where
  "hexdigest (a, b, c, d, e, f, g, h) =
     hex32 a @ hex32 b @ hex32 c @ hex32 d @ hex32 e @ hex32 f @ hex32 g @ hex32 h"

definition sha256_hexdigest :: "8 word list \<Rightarrow> string" where
  "sha256_hexdigest m = hexdigest (sha256 m)"

section \<open>The checksum stamp (\<open>ini_maker.py\<close>)\<close>

datatype py_error = FileNotFoundError | IndexError

definition checksum_prefix :: string where
  "checksum_prefix = ''; SHA256 CHECKSUM: ''"

text \<open>\<open>IniMaker.with_checksum\<close>.\<close>

definition with_checksum :: "string \<Rightarrow> string" where
  "with_checksum lines =
     (let sha256 = sha256_hexdigest (encode_utf8 lines)
      in lines @ (''; SHA256 CHECKSUM: '' @ sha256) @ [newline])"

text \<open>
  The body of \<open>is_ini_edited\<close> once the lines are read: \<open>data[-1]\<close> raises
  \<open>IndexError\<close> on an empty list.
\<close>

definition is_ini_edited_data :: "string list \<Rightarrow> py_error + bool" where
  "is_ini_edited_data data =
     (if data = [] then Inl IndexError
      else
        let checksum = strip (last data) in
        if \<not> startswith checksum checksum_prefix then Inr False
        else
          let sha256 = replace checksum_prefix [] checksum;
              ini_data = butlast data;
              ini_sha256 = sha256_hexdigest (encode_utf8 (concat ini_data))
          in if ini_sha256 \<noteq> sha256 then Inr True else Inr False)"

text \<open>
  \<open>is_ini_edited(ini_path)\<close>: the file system maps a path to the text stored in the
  file; \<open>open\<close> raises \<open>FileNotFoundError\<close> where there is none, and the lines are
  those of the text as text mode delivers it. The file system is only read.
\<close>

type_synonym filesystem = "string \<rightharpoonup> string"

definition is_ini_edited :: "filesystem \<Rightarrow> string \<Rightarrow> py_error + bool" where
  "is_ini_edited fs ini_path =
     (case fs ini_path of
        None \<Rightarrow> Inl FileNotFoundError
      | Some f \<Rightarrow>
          (let data = readlines (universal_newlines f) in is_ini_edited_data data))"

text \<open>The digits of \<open>hexdigest()\<close>.\<close>

definition lower_hex :: "char \<Rightarrow> bool" where
  "lower_hex c = (c \<in> set ''0123456789abcdef'')"

text \<open>A text made of whole lines: empty, or ending with the line feed.\<close>

definition complete_lines :: "string \<Rightarrow> bool" where
  "complete_lines t = (t = [] \<or> last t = newline)"

section \<open>The builder\<close>

text \<open>
  Modelled from the spec: the module \<open>ini_builder/IniBuilder.py\<close> that
  \<open>ini_maker.py\<close> imports (\<open>IniBuilder\<close>, \<open>IniSection\<close>) is not among the sources.
  A group has a literal header, its sections in insertion order, and a literal footer.
  A section is the value the caller added; how one section is rendered is a parameter
  of \<open>build\<close>.
\<close>

record 's ini_group =
  group_header :: string
  group_sections :: "'s list"
  group_footer :: string

text \<open>
  Modelled from the spec: the builder owns the option to suppress comments, the leading
  header text and the groups, each under its index.
\<close>

record 's ini_builder =
  skip_comments :: bool
  header :: string
  groups :: "(nat \<times> 's ini_group) list"

text \<open>
  Modelled from the spec: the constructor \<open>IniBuilder(config)\<close>; no header, no group.
\<close>

definition IniBuilder :: "bool \<Rightarrow> 's ini_builder" where
  "IniBuilder skip = \<lparr>skip_comments = skip, header = [], groups = []\<rparr>"

text \<open>
  Modelled from the spec: the group of an index is created on first use, empty.
\<close>

definition new_group :: "'s ini_group" where
  "new_group = \<lparr>group_header = [], group_sections = [], group_footer = []\<rparr>"

definition get_group :: "'s ini_builder \<Rightarrow> nat \<Rightarrow> 's ini_group" where
  "get_group b i = (case map_of (groups b) i of None \<Rightarrow> new_group | Some g \<Rightarrow> g)"

text \<open>
  Modelled from the spec: \<open>set_group_header\<close>, \<open>set_group_footer\<close> attach literal text
  to the group at the index; \<open>add_section\<close> appends to the sections of that group.
\<close>

definition set_group_header :: "nat \<Rightarrow> string \<Rightarrow> 's ini_builder \<Rightarrow> 's ini_builder" where
  "set_group_header i text b =
     b\<lparr>groups := AList.update i ((get_group b i)\<lparr>group_header := text\<rparr>) (groups b)\<rparr>"

definition set_group_footer :: "nat \<Rightarrow> string \<Rightarrow> 's ini_builder \<Rightarrow> 's ini_builder" where
  "set_group_footer i text b =
     b\<lparr>groups := AList.update i ((get_group b i)\<lparr>group_footer := text\<rparr>) (groups b)\<rparr>"

definition add_section :: "'s \<Rightarrow> nat \<Rightarrow> 's ini_builder \<Rightarrow> 's ini_builder" where
  "add_section s i b =
     b\<lparr>groups := AList.update i
       ((get_group b i)\<lparr>group_sections := group_sections (get_group b i) @ [s]\<rparr>) (groups b)\<rparr>"

text \<open>
  Modelled from the spec: \<open>build()\<close> renders the leading header, then each group by
  ascending index: its header, its sections in insertion order, its footer.
\<close>

definition render_group :: "('s \<Rightarrow> string) \<Rightarrow> 's ini_group \<Rightarrow> string" where
  "render_group render_section g =
     group_header g @ concat (map render_section (group_sections g)) @ group_footer g"

definition build :: "(bool \<Rightarrow> 's \<Rightarrow> string) \<Rightarrow> 's ini_builder \<Rightarrow> string" where
  "build render_section b =
     header b @
     concat (map (\<lambda>(i, g). render_group (render_section (skip_comments b)) g)
                 (sort_key fst (groups b)))"

text \<open>
  The calls a client makes on the builder, and the builder after a sequence of them.
\<close>

datatype 's builder_call =
  Set_group_header nat string | Set_group_footer nat string | Add_section 's nat

fun apply_call :: "'s ini_builder \<Rightarrow> 's builder_call \<Rightarrow> 's ini_builder" where
  "apply_call b (Set_group_header i text) = set_group_header i text b"
| "apply_call b (Set_group_footer i text) = set_group_footer i text b"
| "apply_call b (Add_section s i) = add_section s i b"

definition run_calls :: "'s ini_builder \<Rightarrow> 's builder_call list \<Rightarrow> 's ini_builder" where
  "run_calls b cs = foldl apply_call b cs"

text \<open>
  What a sequence of calls says about one group: the index a call names, the effect of
  a call on the group it names, the group that the calls naming index \<open>i\<close> make, and
  the sections they add to it, in call order.
\<close>

fun call_group :: "'s builder_call \<Rightarrow> nat" where
  "call_group (Set_group_header i text) = i"
| "call_group (Set_group_footer i text) = i"
| "call_group (Add_section s i) = i"

fun group_call :: "'s ini_group \<Rightarrow> 's builder_call \<Rightarrow> 's ini_group" where
  "group_call g (Set_group_header i text) = g\<lparr>group_header := text\<rparr>"
| "group_call g (Set_group_footer i text) = g\<lparr>group_footer := text\<rparr>"
| "group_call g (Add_section s i) = g\<lparr>group_sections := group_sections g @ [s]\<rparr>"

definition group_of :: "nat \<Rightarrow> 's builder_call list \<Rightarrow> 's ini_group" where
  "group_of i cs = foldl group_call new_group (filter (\<lambda>c. call_group c = i) cs)"

fun sections_added :: "nat \<Rightarrow> 's builder_call list \<Rightarrow> 's list" where
  "sections_added i [] = []"
| "sections_added i (Add_section s j # cs) =
     (if j = i then s # sections_added i cs else sections_added i cs)"
| "sections_added i (c # cs) = sections_added i cs"

text \<open>
  \<open>IniMaker.__post_init__\<close> (\<open>ini_maker.py\<close>): every \<open>make_..._group\<close> method sets
  the header of one group and then adds that group's sections; the sections, which come
  from the collected metadata, are a parameter. \<open>make_autogenerated_group\<close> sets the
  footer of group 8.
\<close>

definition group_calls :: "nat \<Rightarrow> string \<Rightarrow> 's list \<Rightarrow> 's builder_call list" where
  "group_calls i text sections =
     Set_group_header i text # map (\<lambda>s. Add_section s i) sections"

definition make_mod_state_group :: "'s list \<Rightarrow> 's builder_call list" where
  "make_mod_state_group sections =
     group_calls 0 ''; Mod State -------------------------\<newline>\<newline>'' sections"

definition make_mod_info_group :: "'s list \<Rightarrow> 's builder_call list" where
  "make_mod_info_group sections =
     group_calls 1 ''; Resources: Mod Info -------------------------\<newline>\<newline>'' sections"

definition make_draw_calls_group :: "'s list \<Rightarrow> 's builder_call list" where
  "make_draw_calls_group sections =
     group_calls 2
       ''; Shading: Draw Call Stacks Processing -------------------------\<newline>\<newline>'' sections"

definition make_texture_resources_group :: "'s list \<Rightarrow> 's builder_call list" where
  "make_texture_resources_group sections =
     group_calls 3 ''; Shading: Textures -------------------------\<newline>\<newline>'' sections"

definition make_shape_keys_override_group :: "'s list \<Rightarrow> 's builder_call list" where
  "make_shape_keys_override_group sections =
     group_calls 4
       ''; Skinning: Shape Keys Override -------------------------\<newline>\<newline>'' sections"

definition make_skeleton_override_group :: "'s list \<Rightarrow> 's builder_call list" where
  "make_skeleton_override_group sections =
     group_calls 5
       ''; Skinning: Skeleton Override -------------------------\<newline>\<newline>'' sections"

definition make_buffer_resources_group :: "'s list \<Rightarrow> 's builder_call list" where
  "make_buffer_resources_group sections =
     group_calls 6 ''; Resources: Buffers -------------------------\<newline>\<newline>'' sections"

definition make_shape_keys_resources_group :: "'s list \<Rightarrow> 's builder_call list" where
  "make_shape_keys_resources_group sections =
     group_calls 7
       ''; Resources: Shape Keys Override -------------------------\<newline>\<newline>'' sections"

definition make_skeleton_resources_group :: "'s list \<Rightarrow> 's builder_call list" where
  "make_skeleton_resources_group sections =
     group_calls 8
       ''; Resources: Skeleton Override -------------------------\<newline>\<newline>'' sections"

definition make_autogenerated_group :: "string \<Rightarrow> 's builder_call list" where
  "make_autogenerated_group msg =
     [Set_group_footer 8
        (''\<newline>'' @
         ''; Autogenerated -------------------------\<newline>'' @
         ''\<newline>'' @
         ''; '' @ msg @ ''\<newline>'' @
         ''; WWMI Link: https://gamebanana.com/mods/xxxxxx'' @ ''\<newline>'' @
         ''; WWMI GitHub: https://github.com/SpectrumQT/WWMI'' @ ''\<newline>'' @
         ''; WWMI Tools Link: https://gamebanana.com/mods/xxxxxx'' @ ''\<newline>'' @
         ''; WWMI Tools GitHub: https://github.com/SpectrumQT/WWMI_Tools'' @ ''\<newline>'' @
         ''; AGMG Modding Community Discord: https://discord.com/invite/agmg'' @ ''\<newline>'' @
         ''\<newline>'')]"

definition post_init_calls :: "int \<Rightarrow> (nat \<Rightarrow> 's list) \<Rightarrow> string \<Rightarrow> 's builder_call list" where
  "post_init_calls custom_vertex_count sections msg =
     make_mod_state_group (sections 0) @
     (if custom_vertex_count > 0 then make_shape_keys_override_group (sections 4) else []) @
     make_skeleton_override_group (sections 5) @
     make_draw_calls_group (sections 2) @
     make_mod_info_group (sections 1) @
     make_texture_resources_group (sections 3) @
     make_buffer_resources_group (sections 6) @
     (if custom_vertex_count > 0 then make_shape_keys_resources_group (sections 7) else []) @
     make_skeleton_resources_group (sections 8) @
     make_autogenerated_group msg"

definition post_init ::
  "bool \<Rightarrow> int \<Rightarrow> (nat \<Rightarrow> 's list) \<Rightarrow> string \<Rightarrow> 's ini_builder" where
  "post_init comment_code custom_vertex_count sections msg =
     run_calls ((IniBuilder (\<not> comment_code))\<lparr>header := ''; WWMI ALPHA-1 INI\<newline>\<newline>''\<rparr>)
       (post_init_calls custom_vertex_count sections msg)"

text \<open>\<open>IniMaker.build\<close>: the document of the builder, signed.\<close>

definition IniMaker_build ::
  "(bool \<Rightarrow> 's \<Rightarrow> string) \<Rightarrow> bool \<Rightarrow> int \<Rightarrow> (nat \<Rightarrow> 's list) \<Rightarrow> string \<Rightarrow> string" where
  "IniMaker_build render_section comment_code custom_vertex_count sections msg =
     with_checksum
       (build render_section (post_init comment_code custom_vertex_count sections msg))"

section \<open>Lemmas on the text operations and the digest\<close>

lemma length_hex32: "length (hex32 w) = 8"
  by (simp add: hex32_def)

lemma hexdigit_lower_hex: "lower_hex (hexdigit n)"
proof -
  have "n mod 16 < length ''0123456789abcdef''" by simp
  then have "''0123456789abcdef'' ! (n mod 16) \<in> set ''0123456789abcdef''"
    by (rule nth_mem)
  then show ?thesis by (simp only: lower_hex_def hexdigit_def)
qed

lemma hex32_lower_hex: "list_all lower_hex (hex32 w)"
  by (simp add: hex32_def list_all_iff hexdigit_lower_hex)

lemma length_hexdigest: "length (hexdigest st) = 64"
  by (induction st rule: hexdigest.induct) (simp add: length_hex32)

lemma hexdigest_lower_hex: "list_all lower_hex (hexdigest st)"
  by (induction st rule: hexdigest.induct) (simp add: hex32_lower_hex)

lemma length_sha256_hexdigest: "length (sha256_hexdigest m) = 64"
  by (simp add: sha256_hexdigest_def length_hexdigest)

lemma sha256_hexdigest_lower_hex: "list_all lower_hex (sha256_hexdigest m)"
  by (simp add: sha256_hexdigest_def hexdigest_lower_hex)

text \<open>The digests that \<open>hashlib\<close> gives for two short texts, as a check of the model.\<close>

lemma sha256_abc:
  "sha256_hexdigest (encode_utf8 ''abc'') =
     ''ba7816bf8f01cfea414140de5dae2223b00361a396177a9cb410ff61f20015ad''"
  by code_simp

lemma sha256_two_byte_character:
  "sha256_hexdigest (encode_utf8 [CHR 0xE9]) =
     ''4a99557e4033c3539de2eb65472017cad5f9557f7a0625a09f1c3f6e2ba69c4c''"
  by code_simp

lemma sha256_a_newline:
  "sha256_hexdigest (encode_utf8 ''a\<newline>'') =
     ''87428fc522803d31065e7bce3cf03fe475096631e5e07bbd7a0fde60c4cf25c7''"
  by code_simp

lemma sha256_a_CR_LF:
  "sha256_hexdigest (encode_utf8 [CHR ''a'', CHR 0x0D, CHR 0x0A]) =
     ''8e4621379786ef42a4fec155cd525c291dd7db3c1fde3478522f4f61c03fd1bd''"
  by code_simp


lemma lower_hex_not_space: "lower_hex c \<Longrightarrow> \<not> isspace c"
  by (auto simp: lower_hex_def isspace_def)

lemma lower_hex_not_newline: "lower_hex c \<Longrightarrow> c \<noteq> newline"
  by (auto simp: lower_hex_def newline_def)

lemma lower_hex_not_CR: "lower_hex c \<Longrightarrow> c \<noteq> CR"
  by (auto simp: lower_hex_def CR_def)

lemma lower_hex_not_semicolon: "lower_hex c \<Longrightarrow> c \<noteq> CHR '';''"
  by (auto simp: lower_hex_def)

lemma concat_readlines: "concat (readlines s) = s"
  by (induction s) (auto split: list.splits)

lemma readlines_eq_Nil: "readlines s = [] \<longleftrightarrow> s = []"
  by (cases s) (auto split: list.splits)

lemma readlines_append: 
  "complete_lines s \<Longrightarrow> readlines (s @ t) = readlines s @ readlines t"
proof (induction s)
  case Nil
  then show ?case by simp
next
  case (Cons c cs)
  show ?case
  proof (cases "c = newline")
    case True
    from Cons.prems have "complete_lines cs"
      by (auto simp: complete_lines_def split: if_splits)
    with Cons.IH True show ?thesis by simp
  next
    case False
    with Cons.prems have ne: "cs \<noteq> []" and "last cs = newline"
      by (auto simp: complete_lines_def split: if_splits)
    then have "complete_lines cs" by (simp add: complete_lines_def)
    with Cons.IH have eq: "readlines (cs @ t) = readlines cs @ readlines t" by simp
    from ne have "readlines cs \<noteq> []" by (simp add: readlines_eq_Nil)
    then obtain l ls where "readlines cs = l # ls" by (cases "readlines cs") auto
    with eq False show ?thesis by simp
  qed
qed

lemma readlines_one_line: "newline \<notin> set l \<Longrightarrow> readlines (l @ [newline]) = [l @ [newline]]"
  by (induction l) auto

lemma readlines_partial: "newline \<notin> set l \<Longrightarrow> l \<noteq> [] \<Longrightarrow> readlines l = [l]"
proof (induction l)
  case Nil
  then show ?case by simp
next
  case (Cons c cs)
  then show ?case by (cases "cs = []") auto
qed

declare readlines.simps [simp del]

lemma readlines_Cons:
  "readlines (c # cs) =
     (if c = newline then [c] # readlines cs
      else if cs = [] then [[c]] else (c # hd (readlines cs)) # tl (readlines cs))"
  by (cases "readlines cs") (auto simp: readlines.simps readlines_eq_Nil [symmetric])

lemma readlines_whole_lines:
  "l \<in> set (butlast (readlines u)) \<Longrightarrow> l \<noteq> [] \<and> last l = newline"
proof (induction u arbitrary: l)
  case Nil
  then show ?case by (simp add: readlines.simps)
next
  case (Cons c cs)
  show ?case
  proof (cases "c = newline")
    case True
    with Cons show ?thesis
      by (auto simp: readlines_Cons readlines_eq_Nil split: if_splits)
  next
    case False
    show ?thesis
    proof (cases "readlines cs")
      case Nil
      with Cons.prems False show ?thesis by (simp add: readlines.simps)
    next
      case (Cons x xs)
      show ?thesis
      proof (cases "xs = []")
        case True
        with Cons \<open>l \<in> set (butlast (readlines (c # cs)))\<close> False show ?thesis
          by (simp add: readlines.simps)
      next
        case nonempty: False
        from Cons nonempty have "x \<in> set (butlast (readlines cs))"
          by simp
        then have x: "x \<noteq> [] \<and> last x = newline" by (rule Cons.IH)
        from Cons nonempty \<open>l \<in> set (butlast (readlines (c # cs)))\<close> False
        have "l = c # x \<or> l \<in> set (butlast (readlines cs))"
          by (auto simp add: readlines.simps)
        with x Cons.IH show ?thesis by auto
      qed
    qed
  qed
qed

lemma concat_whole_lines:
  "(\<And>l. l \<in> set ls \<Longrightarrow> l \<noteq> [] \<and> last l = newline) \<Longrightarrow> complete_lines (concat ls)"
proof (induction ls)
  case Nil
  then show ?case by (simp add: complete_lines_def)
next
  case (Cons a ls)
  then have "complete_lines (concat ls)" and "a \<noteq> []" and "last a = newline"
    by simp_all
  then show ?case
    by (cases "concat ls = []") (auto simp add: complete_lines_def)
qed

lemma last_line_complete:
  assumes "last (readlines (t @ x)) = x" and "t @ x \<noteq> []"
  shows "complete_lines t"
proof -
  from assms(2) have "readlines (t @ x) \<noteq> []" by (simp add: readlines_eq_Nil)
  then have "concat (butlast (readlines (t @ x))) @ last (readlines (t @ x)) =
      concat (readlines (t @ x))"
    by (metis append_butlast_last_id concat.simps(1,2) concat_append append_Nil2)
  with assms(1) have "concat (butlast (readlines (t @ x))) = t"
    by (simp add: concat_readlines)
  with concat_whole_lines [of "butlast (readlines (t @ x))"] readlines_whole_lines
  show ?thesis by metis
qed

lemma universal_newlines_Cons:
  "c \<noteq> CR \<Longrightarrow> universal_newlines (c # s) = c # universal_newlines s"
  by (cases s) simp_all

lemma universal_newlines_CR_LF:
  "universal_newlines (CR # newline # s) = newline # universal_newlines s"
  by simp


lemma universal_newlines_id: "CR \<notin> set s \<Longrightarrow> universal_newlines s = s"
proof (induction s)
  case Nil
  then show ?case by simp
next
  case (Cons a s)
  then have "a \<noteq> CR" and "universal_newlines s = s" by auto
  then show ?case by (simp add: universal_newlines_Cons)
qed

lemma universal_newlines_eq_Nil: "universal_newlines s = [] \<longleftrightarrow> s = []"
  by (induction s rule: universal_newlines.induct) simp_all

lemma universal_newlines_append:
  assumes "r \<noteq> []" and "hd r \<noteq> newline"
  shows "universal_newlines (s @ r) = universal_newlines s @ universal_newlines r"
  using assms
proof (induction s rule: universal_newlines.induct)
  case 1
  then show ?case by simp
next
  case (2 c)
  then show ?case by (cases r) auto
next
  case (3 c d cs)
  then show ?case by auto
qed

declare universal_newlines.simps [simp del]

lemma strip_Cons: "\<not> isspace c \<Longrightarrow> strip (c # cs) = c # rev (dropWhile isspace (rev cs))"
  by (simp add: strip_def dropWhile_append)

lemma strip_leading:
  assumes "\<forall>c \<in> set a. isspace c"
  shows "strip (a @ s) = strip s"
proof -
  have "dropWhile isspace (a @ s) = dropWhile isspace s"
    by (rule dropWhile_append2) (use assms in auto)
  then show ?thesis by (simp only: strip_def)
qed

lemma strip_trailing:
  assumes "\<forall>c \<in> set b. isspace c"
  shows "strip (s @ b) = strip s"
proof (cases "\<forall>c \<in> set s. isspace c")
  case True
  with assms have "dropWhile isspace (s @ b) = []" and "dropWhile isspace s = []"
    by auto
  then show ?thesis by (simp only: strip_def)
next
  case False
  then have "dropWhile isspace (s @ b) = dropWhile isspace s @ b"
    by (auto simp add: dropWhile_append)
  moreover
  have "dropWhile isspace (rev b @ rev (dropWhile isspace s)) =
        dropWhile isspace (rev (dropWhile isspace s))"
    by (rule dropWhile_append2) (use assms in auto)
  ultimately show ?thesis by (simp add: strip_def)
qed

lemma strip_whitespace:
  assumes "\<forall>c \<in> set a. isspace c" and "\<forall>c \<in> set b. isspace c"
  shows "strip (a @ s @ b) = strip s"
  using assms by (simp add: strip_leading strip_trailing)

lemma replace_absent: "old \<noteq> [] \<Longrightarrow> hd old \<notin> set s \<Longrightarrow> replace old new s = s"
proof (induction s)
  case Nil
  then show ?case by (simp add: replace.simps)
next
  case (Cons c cs)
  from Cons.prems have "\<not> startswith (c # cs) old"
    by (cases old) (auto simp: startswith_def)
  with Cons show ?case
    by (subst replace.simps) simp
qed

lemma replace_at_start: "old \<noteq> [] \<Longrightarrow> replace old new (old @ s) = new @ replace old new s"
  by (subst replace.simps) (simp add: startswith_def)

lemma isspace_newline: "isspace newline"
  by (simp add: isspace_def newline_def)

lemma strip_id:
  assumes "s \<noteq> []" and "\<not> isspace (hd s)" and "\<not> isspace (last s)"
  shows "strip s = s"
proof -
  from assms have a: "dropWhile isspace s = s"
    by (cases s) auto
  from assms have "rev s \<noteq> []" and "\<not> isspace (hd (rev s))"
    by (simp_all add: hd_rev)
  then have b: "dropWhile isspace (rev s) = rev s"
    by (cases "rev s") auto
  show ?thesis by (simp add: strip_def a b)
qed

lemma checksum_prefix_facts:
  "checksum_prefix \<noteq> []" "hd checksum_prefix = CHR '';''"
  "newline \<notin> set checksum_prefix" "\<not> isspace (hd checksum_prefix)"
  "length checksum_prefix = 19"
  by (simp_all add: checksum_prefix_def newline_def isspace_def)

lemma stamp_strip:
  assumes "list_all lower_hex h" and "h \<noteq> []"
  shows "strip (checksum_prefix @ h @ [newline]) = checksum_prefix @ h"
proof -
  have "strip ((checksum_prefix @ h) @ [newline]) = strip (checksum_prefix @ h)"
    by (rule strip_trailing) (simp add: isspace_newline)
  moreover from assms have "\<not> isspace (last (checksum_prefix @ h))"
    by (simp add: list_all_iff lower_hex_not_space)
  then have "strip (checksum_prefix @ h) = checksum_prefix @ h"
    by (intro strip_id) (use checksum_prefix_facts in auto)
  ultimately show ?thesis by simp
qed

lemma stamp_no_newline:
  assumes "list_all lower_hex h"
  shows "newline \<notin> set (checksum_prefix @ h)"
  using assms checksum_prefix_facts(3) by (auto simp: list_all_iff dest: lower_hex_not_newline)

lemma stamp_replace:
  assumes "list_all lower_hex h"
  shows "replace checksum_prefix [] (checksum_prefix @ h) = h"
proof -
  from assms have "hd checksum_prefix \<notin> set h"
    by (auto simp: list_all_iff checksum_prefix_facts dest: lower_hex_not_semicolon)
  then show ?thesis
    by (simp add: replace_at_start replace_absent checksum_prefix_facts)
qed

lemma stamped_lines:
  assumes "complete_lines t"
  shows "is_ini_edited_data
           (readlines (t @ checksum_prefix @ sha256_hexdigest m @ [newline])) =
         Inr (sha256_hexdigest (encode_utf8 t) \<noteq> sha256_hexdigest m)"
proof -
  let ?h = "sha256_hexdigest m"
  have hex: "list_all lower_hex ?h" and ne: "?h \<noteq> []"
    using length_sha256_hexdigest [of m] by (auto simp: sha256_hexdigest_lower_hex)
  have "readlines ((checksum_prefix @ ?h) @ [newline]) = [(checksum_prefix @ ?h) @ [newline]]"
    by (rule readlines_one_line) (rule stamp_no_newline [OF hex])
  with assms have data: "readlines (t @ checksum_prefix @ ?h @ [newline]) =
      readlines t @ [checksum_prefix @ ?h @ [newline]]"
    by (simp add: readlines_append)
  show ?thesis
    unfolding data is_ini_edited_data_def
    by (simp add: Let_def stamp_strip [OF hex ne] stamp_replace [OF hex]
        startswith_def concat_readlines)
qed

lemma digest_neq_length: "length g \<noteq> 64 \<Longrightarrow> sha256_hexdigest m \<noteq> g"
  using length_sha256_hexdigest [of m] by auto


lemma is_ini_edited_read:
  "fs ini_path = Some f \<Longrightarrow> CR \<notin> set f \<Longrightarrow>
   is_ini_edited fs ini_path = is_ini_edited_data (readlines f)"
  by (simp add: is_ini_edited_def universal_newlines_id)

lemma is_ini_edited_read_file:
  "CR \<notin> set f \<Longrightarrow>
   is_ini_edited (Map.empty(ini_path \<mapsto> f)) ini_path = is_ini_edited_data (readlines f)"
  by (simp add: is_ini_edited_read)

lemma stamp_no_CR:
  assumes "list_all lower_hex h"
  shows "CR \<notin> set (checksum_prefix @ h @ [newline])"
  using assms
  by (auto simp: list_all_iff checksum_prefix_def CR_def newline_def dest: lower_hex_not_CR)

lemma stamped_file:
  assumes "fs ini_path = Some (t @ checksum_prefix @ sha256_hexdigest m @ [newline])"
    and "complete_lines (universal_newlines t)"
  shows "is_ini_edited fs ini_path =
         Inr (sha256_hexdigest (encode_utf8 (universal_newlines t)) \<noteq> sha256_hexdigest m)"
proof -
  let ?trailer = "checksum_prefix @ sha256_hexdigest m @ [newline]"
  have "universal_newlines (t @ ?trailer) = universal_newlines t @ universal_newlines ?trailer"
    by (rule universal_newlines_append) (simp_all add: checksum_prefix_def newline_def)
  also have "universal_newlines ?trailer = ?trailer"
    by (rule universal_newlines_id) (rule stamp_no_CR [OF sha256_hexdigest_lower_hex])
  finally show ?thesis
    using assms by (simp add: is_ini_edited_def stamped_lines)
qed

lemma stamp_line_result:
  assumes "data \<noteq> []" and "strip (last data) = checksum_prefix @ g"
    and "CHR '';'' \<notin> set g"
  shows "is_ini_edited_data data =
         Inr (sha256_hexdigest (encode_utf8 (concat (butlast data))) \<noteq> g)"
proof -
  from assms(3) have "replace checksum_prefix [] (checksum_prefix @ g) = g"
    by (simp add: replace_at_start replace_absent checksum_prefix_facts)
  with assms(1,2) show ?thesis
    by (simp add: is_ini_edited_data_def Let_def startswith_def)
qed

lemma readlines_two:
  "newline \<notin> set a \<Longrightarrow> newline \<notin> set b \<Longrightarrow> b \<noteq> [] \<Longrightarrow>
   readlines ((a @ [newline]) @ b) = [a @ [newline], b]"
  by (subst readlines_append) (simp_all add: complete_lines_def readlines_one_line readlines_partial)

lemma readlines_two_complete:
  "newline \<notin> set a \<Longrightarrow> newline \<notin> set b \<Longrightarrow>
   readlines ((a @ [newline]) @ (b @ [newline])) = [a @ [newline], b @ [newline]]"
  by (subst readlines_append) (simp_all add: complete_lines_def readlines_one_line)

lemma garbled_file_lines:
  "readlines ''[Constants]\<newline>; SHA256 CHECKSUM: garbled\<newline>'' =
     [''[Constants]\<newline>'', ''; SHA256 CHECKSUM: garbled\<newline>'']"
proof -
  have "readlines ((''[Constants]'' @ [newline]) @ (''; SHA256 CHECKSUM: garbled'' @ [newline])) =
      [''[Constants]'' @ [newline], ''; SHA256 CHECKSUM: garbled'' @ [newline]]"
    by (rule readlines_two_complete) (simp_all add: newline_def)
  then show ?thesis by (simp add: newline_def)
qed

lemma garbled_line_strip:
  "strip ''; SHA256 CHECKSUM: garbled\<newline>'' = checksum_prefix @ ''garbled''"
proof -
  have "strip (''; SHA256 CHECKSUM: garbled'' @ ''\<newline>'') = strip ''; SHA256 CHECKSUM: garbled''"
    by (rule strip_trailing) (simp add: isspace_def)
  also have "\<dots> = ''; SHA256 CHECKSUM: garbled''"
    by (rule strip_id) (simp_all add: isspace_def)
  finally show ?thesis by (simp add: checksum_prefix_def)
qed

section \<open>Lemmas on the builder\<close>

lemma groups_apply_call:
  "groups (apply_call b c) =
     AList.update (call_group c) (group_call (get_group b (call_group c)) c) (groups b)"
  by (cases c) (simp_all add: set_group_header_def set_group_footer_def add_section_def)

lemma frame_apply_call:
  "header (apply_call b c) = header b" "skip_comments (apply_call b c) = skip_comments b"
  by (cases c; simp add: set_group_header_def set_group_footer_def add_section_def)+

lemma run_calls_snoc: "run_calls b (cs @ [c]) = apply_call (run_calls b cs) c"
  by (simp add: run_calls_def)

lemma frame_run_calls:
  "header (run_calls b cs) = header b" "skip_comments (run_calls b cs) = skip_comments b"
  by (induction cs rule: rev_induct) (simp_all add: run_calls_snoc frame_apply_call run_calls_def)

lemma group_of_snoc:
  "group_of i (cs @ [c]) =
     (if call_group c = i then group_call (group_of i cs) c else group_of i cs)"
  by (simp add: group_of_def)

lemma group_of_unused: "i \<notin> call_group ` set cs \<Longrightarrow> group_of i cs = new_group"
proof -
  assume "i \<notin> call_group ` set cs"
  then have "filter (\<lambda>c. call_group c = i) cs = []"
    by (auto simp: filter_empty_conv)
  then show ?thesis by (simp add: group_of_def)
qed

lemma groups_run_calls:
  assumes "groups b = []"
  shows "distinct (map fst (groups (run_calls b cs))) \<and>
         map_of (groups (run_calls b cs)) =
           (\<lambda>i. if i \<in> call_group ` set cs then Some (group_of i cs) else None)"
proof (induction cs rule: rev_induct)
  case Nil
  with assms show ?case by (simp add: run_calls_def fun_eq_iff)
next
  case (snoc c cs)
  let ?b = "run_calls b cs"
  have get: "get_group ?b (call_group c) = group_of (call_group c) cs"
    using snoc by (simp add: get_group_def group_of_unused)
  show ?case
    using snoc
    by (auto simp add: run_calls_snoc groups_apply_call get distinct_update update_conv'
        group_of_snoc fun_eq_iff)
qed

lemma map_fst_insort_key:
  "map fst (insort_key fst x xs) = insort (fst x) (map fst xs)"
  by (induction xs) simp_all

lemma map_fst_sort_key: "map fst (sort_key fst xs) = sort (map fst xs)"
  by (induction xs) (simp_all add: map_fst_insort_key)

lemma sorted_keys:
  "distinct (map fst al) \<Longrightarrow> map fst (sort_key fst al) = sorted_list_of_set (fst ` set al)"
  using sorted_list_of_set_sort_remdups [of "map fst al"]
  by (simp add: map_fst_sort_key distinct_remdups_id)

lemma map_values:
  assumes "distinct (map fst al)" and "set xs \<subseteq> set al"
  shows "map (\<lambda>(i, g). F g) xs = map (\<lambda>i. F (the (map_of al i))) (map fst xs)"
  using assms by (induction xs) auto

lemma build_run_calls:
  assumes "groups b = []"
  shows "build r (run_calls b cs) =
         header b @
         concat (map (\<lambda>i. render_group (r (skip_comments b)) (group_of i cs))
                     (sorted_list_of_set (call_group ` set cs)))"
proof -
  let ?al = "groups (run_calls b cs)"
  let ?F = "render_group (r (skip_comments b))"
  from groups_run_calls [OF assms, of cs]
  have d: "distinct (map fst ?al)"
    and m: "map_of ?al = (\<lambda>i. if i \<in> call_group ` set cs then Some (group_of i cs) else None)"
    by simp_all
  have "fst ` set ?al = dom (map_of ?al)"
    by (simp add: dom_map_of_conv_image_fst)
  also have "\<dots> = call_group ` set cs"
    unfolding m by (auto simp: dom_def split: if_splits)
  finally have keys: "fst ` set ?al = call_group ` set cs" .
  have "map (\<lambda>(i, g). ?F g) (sort_key fst ?al) =
        map (\<lambda>i. ?F (the (map_of ?al i))) (map fst (sort_key fst ?al))"
    by (rule map_values [OF d]) simp
  also have "\<dots> = map (\<lambda>i. ?F (the (map_of ?al i))) (sorted_list_of_set (call_group ` set cs))"
    by (simp add: sorted_keys [OF d] keys)
  also have "\<dots> = map (\<lambda>i. ?F (group_of i cs)) (sorted_list_of_set (call_group ` set cs))"
    by (rule map_cong) (simp_all add: m)
  finally show ?thesis
    by (simp add: build_def frame_run_calls)
qed

lemma sections_foldl:
  "group_sections (foldl group_call g (filter (\<lambda>c. call_group c = i) cs)) =
     group_sections g @ sections_added i cs"
proof (induction cs arbitrary: g)
  case Nil
  then show ?case by simp
next
  case (Cons c cs)
  then show ?case by (cases c) simp_all
qed

lemma sections_group_of: "group_sections (group_of i cs) = sections_added i cs"
  by (simp add: group_of_def sections_foldl new_group_def)

lemmas make_group_defs =
  make_mod_state_group_def make_mod_info_group_def make_draw_calls_group_def
  make_texture_resources_group_def make_shape_keys_override_group_def
  make_skeleton_override_group_def make_buffer_resources_group_def
  make_shape_keys_resources_group_def make_skeleton_resources_group_def
  make_autogenerated_group_def

lemma call_group_group_calls: "call_group ` set (group_calls i text ss) = {i}"
  by (auto simp: group_calls_def)

lemma map_call_group_group_calls:
  "map call_group (group_calls i text ss) = i # map (\<lambda>s. i) ss"
  by (simp add: group_calls_def)

lemma remdups_adj_block: "remdups_adj (i # map (\<lambda>s. i) ss @ xs) = remdups_adj (i # xs)"
  by (induction ss) simp_all

lemma sections_added_append:
  "sections_added i (xs @ ys) = sections_added i xs @ sections_added i ys"
  by (induction i xs rule: sections_added.induct) simp_all

lemma sections_added_map:
  "sections_added i (map (\<lambda>s. Add_section s k) ss) = (if k = i then ss else [])"
  by (induction ss) auto

lemma sections_added_group_calls:
  "sections_added i (group_calls k text ss) = (if k = i then ss else [])"
  by (simp add: group_calls_def sections_added_map)

lemma post_init_groups:
  assumes "0 < custom_vertex_count"
  shows "call_group ` set (post_init_calls custom_vertex_count sections msg) = {0..<9}"
proof -
  from assms
  have "call_group ` set (post_init_calls custom_vertex_count sections msg) =
        {0, 4, 5, 2, 1, 3, 6, 7, 8}"
    by (auto simp add: post_init_calls_def make_group_defs image_Un call_group_group_calls)
  also have "\<dots> = {0..<9}" by auto
  finally show ?thesis .
qed

lemma post_init_order:
  assumes "0 < custom_vertex_count"
  shows "remdups_adj (map call_group (post_init_calls custom_vertex_count sections msg)) =
         [0, 4, 5, 2, 1, 3, 6, 7, 8]"
  using assms
  by (simp add: post_init_calls_def make_group_defs map_call_group_group_calls
      remdups_adj_block)

lemma post_init_sections:
  assumes "0 < custom_vertex_count" and "i < 9"
  shows "sections_added i (post_init_calls custom_vertex_count sections msg) = sections i"
proof -
  from assms(2) have "i \<in> {0, 1, 2, 3, 4, 5, 6, 7, 8}" by auto
  with assms(1) show ?thesis
    by (auto simp add: post_init_calls_def make_group_defs sections_added_append
        sections_added_group_calls)
qed

text \<open>The document of \<open>IniMaker\<close> ends with the footer of group 8, hence with a line feed.\<close>

lemma post_init_groups_no_shape_keys:
  assumes "\<not> 0 < custom_vertex_count"
  shows "call_group ` set (post_init_calls custom_vertex_count sections msg) =
         set [0, 1, 2, 3, 5, 6, 8]"
  using assms
  by (auto simp add: post_init_calls_def make_group_defs image_Un call_group_group_calls)

lemma post_init_last_group:
  "\<exists>ys. sorted_list_of_set (call_group ` set (post_init_calls n sections msg)) = ys @ [8]"
proof (cases "0 < n")
  case True
  have "[0..<9] = [0..<8] @ [8::nat]" by (simp add: upt_rec)
  with post_init_groups [OF True, of sections msg] show ?thesis
    by (simp only: sorted_list_of_set_range) blast
next
  case False
  have "sorted_list_of_set (set [0, 1, 2, 3, 5, 6, 8::nat]) = [0, 1, 2, 3, 5, 6] @ [8]"
    by (simp only: sorted_list_of_set_sort_remdups) simp
  with post_init_groups_no_shape_keys [OF False, of sections msg] show ?thesis
    by (simp only:) blast
qed

lemma post_init_footer:
  "\<exists>F. group_footer (group_of 8 (post_init_calls n sections msg)) = F @ [newline]"
proof -
  obtain xs :: "'a builder_call list" and F where
    "post_init_calls n sections msg = xs @ [Set_group_footer 8 (F @ [newline])]"
    by (simp add: post_init_calls_def make_autogenerated_group_def newline_def)
  then show ?thesis by (simp add: group_of_snoc)
qed

lemma post_init_document_complete:
  "complete_lines (build r (post_init comment_code n sections msg))"
proof -
  let ?cs = "post_init_calls n sections msg"
  obtain ys where idx: "sorted_list_of_set (call_group ` set ?cs) = ys @ [8]"
    using post_init_last_group by blast
  obtain F where F: "group_footer (group_of 8 ?cs) = F @ [newline]"
    using post_init_footer by blast
  have "build r (post_init comment_code n sections msg) =
      ''; WWMI ALPHA-1 INI\<newline>\<newline>'' @
      concat (map (\<lambda>i. render_group (r (\<not> comment_code)) (group_of i ?cs)) (ys @ [8]))"
    using build_run_calls
      [of "(IniBuilder (\<not> comment_code))\<lparr>header := ''; WWMI ALPHA-1 INI\<newline>\<newline>''\<rparr>" r ?cs]
    by (simp add: post_init_def IniBuilder_def idx)
  then have "\<exists>X. build r (post_init comment_code n sections msg) = X @ [newline]"
    by (simp add: render_group_def F del: append_assoc add: append_assoc [symmetric])
  then show ?thesis by (auto simp: complete_lines_def)
qed

section \<open>Signing and edit detection\<close>

text \<open>
  C1 (round-trip stability), as stated for every text of the builder: the file that
  holds the signed text is reported as not edited. It fails for a text with a carriage
  return: the digest in the trailer is that of the text as signed, the text is read
  back with the carriage return and line feed delivered as one line feed, and the
  recomputed digest differs.
\<close>

theorem signed_carriage_return_counterexample:
  "complete_lines [CHR ''a'', CR, newline] \<and>
   is_ini_edited (Map.empty(''mod.ini'' \<mapsto> with_checksum [CHR ''a'', CR, newline]))
     ''mod.ini'' = Inr True"
proof -
  let ?t = "[CHR ''a'', CR, newline]"
  have "universal_newlines (CHR ''a'' # CR # newline # []) =
      CHR ''a'' # universal_newlines (CR # newline # [])"
    by (rule universal_newlines_Cons) (simp add: CR_def)
  then have u: "universal_newlines ?t = [CHR ''a'', newline]"
    by (simp only: universal_newlines_CR_LF universal_newlines.simps(1))
  have c: "complete_lines (universal_newlines ?t)"
    by (simp add: u complete_lines_def)
  have w: "with_checksum ?t =
      ?t @ checksum_prefix @ sha256_hexdigest (encode_utf8 ?t) @ [newline]"
    by (simp add: with_checksum_def checksum_prefix_def)
  have d: "sha256_hexdigest (encode_utf8 [CHR ''a'', newline]) \<noteq>
      sha256_hexdigest (encode_utf8 ?t)"
    by (simp only: CR_def newline_def sha256_a_newline sha256_a_CR_LF) simp
  have "is_ini_edited (Map.empty(''mod.ini'' \<mapsto> with_checksum ?t)) ''mod.ini'' = Inr True"
    using stamped_file [of "Map.empty(''mod.ini'' \<mapsto> with_checksum ?t)" "''mod.ini''" ?t
        "encode_utf8 ?t", OF _ c] d
    by (simp only: w u fun_upd_same) simp
  moreover have "complete_lines ?t" by (simp add: complete_lines_def)
  ultimately show ?thesis by blast
qed

text \<open>
  C1, amended: for every text of whole lines without a carriage return, and so for
  every document without a carriage return that \<open>IniMaker.build\<close> signs, the file that
  holds the signed text is reported as not edited: \<open>is_ini_edited\<close> returns \<open>False\<close>.
\<close>

theorem sign_then_detect_not_edited:
  "(complete_lines t \<longrightarrow> CR \<notin> set t \<longrightarrow> fs ini_path = Some (with_checksum t) \<longrightarrow>
      is_ini_edited fs ini_path = Inr False) \<and>
   (CR \<notin> set (build r (post_init comment_code custom_vertex_count sections msg)) \<longrightarrow>
    fs ini_path = Some (IniMaker_build r comment_code custom_vertex_count sections msg) \<longrightarrow>
      is_ini_edited fs ini_path = Inr False)"
proof -
  have "is_ini_edited fs ini_path = Inr False"
    if "complete_lines t" and "CR \<notin> set t" and "fs ini_path = Some (with_checksum t)" for t
    using that stamped_file [of fs ini_path t "encode_utf8 t"]
    by (simp add: with_checksum_def checksum_prefix_def universal_newlines_id)
  then show ?thesis
    using post_init_document_complete [of r comment_code custom_vertex_count sections msg]
    by (simp add: IniMaker_build_def)
qed

theorem sign_then_detect_not_edited_witness:
  "complete_lines ''; WWMI ALPHA-1 INI\<newline>\<newline>'' \<and>
   CR \<notin> set ''; WWMI ALPHA-1 INI\<newline>\<newline>'' \<and>
   is_ini_edited (Map.empty(''mod.ini'' \<mapsto> with_checksum ''; WWMI ALPHA-1 INI\<newline>\<newline>''))
     ''mod.ini'' = Inr False \<and>
   CR \<notin> set (build (\<lambda>skip s. s) (post_init True 1 (\<lambda>i. [''[Constants]\<newline>'']) ''msg'')) \<and>
   is_ini_edited
     (Map.empty(''mod.ini'' \<mapsto> IniMaker_build (\<lambda>skip s. s) True 1 (\<lambda>i. [''[Constants]\<newline>'']) ''msg''))
     ''mod.ini'' = Inr False"
proof -
  have c: "complete_lines ''; WWMI ALPHA-1 INI\<newline>\<newline>''"
    by (simp add: complete_lines_def newline_def)
  have n: "CR \<notin> set ''; WWMI ALPHA-1 INI\<newline>\<newline>''"
    by (simp add: CR_def)
  have first: "is_ini_edited
      (Map.empty(''mod.ini'' \<mapsto> with_checksum ''; WWMI ALPHA-1 INI\<newline>\<newline>''))
      ''mod.ini'' = Inr False"
    using c n sign_then_detect_not_edited
      [where t = "''; WWMI ALPHA-1 INI\<newline>\<newline>''"
         and fs = "Map.empty(''mod.ini'' \<mapsto> with_checksum ''; WWMI ALPHA-1 INI\<newline>\<newline>'')"
         and ini_path = "''mod.ini''", THEN conjunct1]
    by simp
  have d: "CR \<notin> set (build (\<lambda>skip s. s)
      (post_init True 1 (\<lambda>i. [''[Constants]\<newline>'']) ''msg''))"
    by code_simp
  have second: "is_ini_edited
     (Map.empty(''mod.ini'' \<mapsto> IniMaker_build (\<lambda>skip s. s) True 1 (\<lambda>i. [''[Constants]\<newline>'']) ''msg''))
     ''mod.ini'' = Inr False"
    using d sign_then_detect_not_edited
      [where fs = "Map.empty(''mod.ini'' \<mapsto>
            IniMaker_build (\<lambda>skip s. s) True 1 (\<lambda>i. [''[Constants]\<newline>'']) ''msg'')"
         and ini_path = "''mod.ini''" and r = "\<lambda>skip s. s" and comment_code = True
         and custom_vertex_count = 1 and sections = "\<lambda>i. [''[Constants]\<newline>'']"
         and msg = "''msg''", THEN conjunct2]
    by simp
  from c n first d second show ?thesis by blast
qed




text \<open>
  C3 (fail-open on an absent or unrecognized trailer), as stated: a file whose last
  line does not start with the prefix is reported as not edited. It fails for a last
  line that starts with the prefix only once its leading whitespace is stripped: the
  stamp is recognized, and a digest that does not match gives \<open>True\<close>.
\<close>

theorem indented_stamp_counterexample:
  "\<not> startswith '' ; SHA256 CHECKSUM: 0'' ''; SHA256 CHECKSUM: '' \<and>
   is_ini_edited (Map.empty(''mod.ini'' \<mapsto> '' ; SHA256 CHECKSUM: 0'')) ''mod.ini'' = Inr True"
proof -
  have r: "readlines '' ; SHA256 CHECKSUM: 0'' = ['' ; SHA256 CHECKSUM: 0'']"
    by (rule readlines_partial) (simp_all add: newline_def)
  have "strip ('' '' @ ''; SHA256 CHECKSUM: 0'') = strip ''; SHA256 CHECKSUM: 0''"
    by (rule strip_leading) (simp add: isspace_def)
  also have "\<dots> = ''; SHA256 CHECKSUM: 0''"
    by (rule strip_id) (simp_all add: isspace_def)
  finally have s: "strip (last ['' ; SHA256 CHECKSUM: 0'']) = checksum_prefix @ ''0''"
    by (simp add: checksum_prefix_def)
  have "sha256_hexdigest (encode_utf8 (concat (butlast ['' ; SHA256 CHECKSUM: 0'']))) \<noteq> ''0''"
    by (rule digest_neq_length) simp
  then have "is_ini_edited_data ['' ; SHA256 CHECKSUM: 0''] = Inr True"
    by (subst stamp_line_result [OF _ s]) simp_all
  moreover have n: "CR \<notin> set '' ; SHA256 CHECKSUM: 0''"
    by (simp add: CR_def)
  ultimately
  have "is_ini_edited (Map.empty(''mod.ini'' \<mapsto> '' ; SHA256 CHECKSUM: 0'')) ''mod.ini'' = Inr True"
    by (simp only: is_ini_edited_read_file [OF n] r)
  moreover have "\<not> startswith '' ; SHA256 CHECKSUM: 0'' ''; SHA256 CHECKSUM: ''"
    by (simp add: startswith_def)
  ultimately show ?thesis by (rule conjI [rotated])
qed

text \<open>
  C3, amended: for every file with at least one line whose last line, stripped of the
  whitespace around it, does not start with the prefix, \<open>is_ini_edited\<close> returns
  \<open>False\<close>.
\<close>

theorem unrecognized_stamp_not_edited:
  assumes "fs ini_path = Some f" and "f \<noteq> []"
    and "\<not> startswith (strip (last (readlines (universal_newlines f)))) checksum_prefix"
  shows "is_ini_edited fs ini_path = Inr False"
  using assms
  by (simp add: is_ini_edited_def is_ini_edited_data_def readlines_eq_Nil
      universal_newlines_eq_Nil)

theorem unrecognized_stamp_not_edited_witness:
  "''[Constants]\<newline>'' \<noteq> [] \<and>
   \<not> startswith (strip (last (readlines (universal_newlines ''[Constants]\<newline>''))))
     checksum_prefix \<and>
   is_ini_edited (Map.empty(''mod.ini'' \<mapsto> ''[Constants]\<newline>'')) ''mod.ini'' = Inr False"
proof -
  have u: "universal_newlines ''[Constants]\<newline>'' = ''[Constants]\<newline>''"
    by (rule universal_newlines_id) (simp add: CR_def)
  have "readlines (''[Constants]'' @ [newline]) = [''[Constants]'' @ [newline]]"
    by (rule readlines_one_line) (simp add: newline_def)
  then have r: "readlines ''[Constants]\<newline>'' = [CHR ''['' # ''Constants]\<newline>'']"
    by (simp add: newline_def)
  have n: "\<not> startswith (strip (last (readlines (universal_newlines ''[Constants]\<newline>''))))
      checksum_prefix"
    unfolding u r by (simp add: strip_Cons isspace_def startswith_def checksum_prefix_def)
  with unrecognized_stamp_not_edited
    [of "Map.empty(''mod.ini'' \<mapsto> ''[Constants]\<newline>'')" "''mod.ini''" "''[Constants]\<newline>''"]
  show ?thesis by simp
qed

text \<open>
  C4 (verification contract), as stated: when the last line starts with the prefix,
  \<open>is_ini_edited\<close> returns \<open>True\<close> exactly when the recomputed digest differs from
  the hash claimed in the trailer. It fails for a trailer that holds the prefix and no
  hash: stripping the line also removes the space that ends the prefix, the stamp is
  not recognized, and the answer is \<open>False\<close> although the digest differs from the
  empty claimed hash.
\<close>

theorem empty_hash_counterexample:
  "startswith ''; SHA256 CHECKSUM: \<newline>'' ''; SHA256 CHECKSUM: '' \<and>
   sha256_hexdigest (encode_utf8 ''[Constants]\<newline>'') \<noteq>
     strip (drop 19 ''; SHA256 CHECKSUM: \<newline>'') \<and>
   is_ini_edited
     (Map.empty(''mod.ini'' \<mapsto> ''[Constants]\<newline>; SHA256 CHECKSUM: \<newline>''))
     ''mod.ini'' = Inr False"
proof -
  have "readlines ((''[Constants]'' @ [newline]) @ (''; SHA256 CHECKSUM: '' @ [newline])) =
      [''[Constants]'' @ [newline], ''; SHA256 CHECKSUM: '' @ [newline]]"
    by (rule readlines_two_complete) (simp_all add: newline_def)
  then have r: "readlines ''[Constants]\<newline>; SHA256 CHECKSUM: \<newline>'' =
      [''[Constants]\<newline>'', ''; SHA256 CHECKSUM:'' @ '' \<newline>'']"
    by (simp add: newline_def)
  have "strip (''; SHA256 CHECKSUM:'' @ '' \<newline>'') = strip ''; SHA256 CHECKSUM:''"
    by (rule strip_trailing) (simp add: isspace_def)
  also have "\<dots> = ''; SHA256 CHECKSUM:''"
    by (rule strip_id) (simp_all add: isspace_def)
  finally have "is_ini_edited_data
      [''[Constants]\<newline>'', ''; SHA256 CHECKSUM:'' @ '' \<newline>''] = Inr False"
    by (simp add: is_ini_edited_data_def startswith_def checksum_prefix_def)
  moreover have n: "CR \<notin> set ''[Constants]\<newline>; SHA256 CHECKSUM: \<newline>''"
    by (simp add: CR_def)
  ultimately have "is_ini_edited
     (Map.empty(''mod.ini'' \<mapsto> ''[Constants]\<newline>; SHA256 CHECKSUM: \<newline>''))
     ''mod.ini'' = Inr False"
    by (simp only: is_ini_edited_read_file [OF n] r)
  moreover have "strip (drop 19 ''; SHA256 CHECKSUM: \<newline>'') = []"
    by (simp add: strip_def isspace_def)
  then have "sha256_hexdigest (encode_utf8 ''[Constants]\<newline>'') \<noteq>
     strip (drop 19 ''; SHA256 CHECKSUM: \<newline>'')"
    by (simp only: digest_neq_length [of "[]", simplified] not_False_eq_True)
  moreover have "startswith ''; SHA256 CHECKSUM: \<newline>'' ''; SHA256 CHECKSUM: ''"
    by (simp add: startswith_def)
  ultimately show ?thesis by blast
qed

text \<open>
  C4, amended: for every file with at least one line whose last line, stripped of the
  whitespace around it, starts with the prefix, \<open>is_ini_edited\<close> returns \<open>True\<close>
  exactly when the SHA-256 digest of the lines before the last differs from the claimed
  hash, which is the stripped last line with every occurrence of the prefix removed.
\<close>

theorem stamp_verified:
  assumes "fs ini_path = Some f" and "f \<noteq> []"
    and "startswith (strip (last (readlines (universal_newlines f)))) checksum_prefix"
  shows "is_ini_edited fs ini_path =
         Inr (sha256_hexdigest
                (encode_utf8 (concat (butlast (readlines (universal_newlines f))))) \<noteq>
              replace checksum_prefix [] (strip (last (readlines (universal_newlines f)))))"
  using assms
  by (simp add: is_ini_edited_def is_ini_edited_data_def readlines_eq_Nil
      universal_newlines_eq_Nil Let_def)

theorem stamp_verified_witness:
  "''[Constants]\<newline>; SHA256 CHECKSUM: 0\<newline>'' \<noteq> [] \<and>
   startswith
     (strip (last (readlines
        (universal_newlines ''[Constants]\<newline>; SHA256 CHECKSUM: 0\<newline>''))))
     checksum_prefix \<and>
   is_ini_edited
     (Map.empty(''mod.ini'' \<mapsto> ''[Constants]\<newline>; SHA256 CHECKSUM: 0\<newline>''))
     ''mod.ini'' =
   Inr (sha256_hexdigest (encode_utf8
          (concat (butlast (readlines
             (universal_newlines ''[Constants]\<newline>; SHA256 CHECKSUM: 0\<newline>''))))) \<noteq>
        replace checksum_prefix []
          (strip (last (readlines
             (universal_newlines ''[Constants]\<newline>; SHA256 CHECKSUM: 0\<newline>'')))))"
proof -
  have u: "universal_newlines ''[Constants]\<newline>; SHA256 CHECKSUM: 0\<newline>'' =
      ''[Constants]\<newline>; SHA256 CHECKSUM: 0\<newline>''"
    by (rule universal_newlines_id) (simp add: CR_def)
  have "readlines ((''[Constants]'' @ [newline]) @ (''; SHA256 CHECKSUM: 0'' @ [newline])) =
      [''[Constants]'' @ [newline], ''; SHA256 CHECKSUM: 0'' @ [newline]]"
    by (rule readlines_two_complete) (simp_all add: newline_def)
  then have r: "readlines ''[Constants]\<newline>; SHA256 CHECKSUM: 0\<newline>'' =
      [''[Constants]\<newline>'', ''; SHA256 CHECKSUM: 0'' @ ''\<newline>'']"
    by (simp add: newline_def)
  have "strip (''; SHA256 CHECKSUM: 0'' @ ''\<newline>'') = strip ''; SHA256 CHECKSUM: 0''"
    by (rule strip_trailing) (simp add: isspace_def)
  also have "\<dots> = ''; SHA256 CHECKSUM: 0''"
    by (rule strip_id) (simp_all add: isspace_def)
  finally have "startswith
      (strip (last (readlines
         (universal_newlines ''[Constants]\<newline>; SHA256 CHECKSUM: 0\<newline>''))))
      checksum_prefix"
    by (simp add: u r startswith_def checksum_prefix_def)
  with stamp_verified
    [of "Map.empty(''mod.ini'' \<mapsto> ''[Constants]\<newline>; SHA256 CHECKSUM: 0\<newline>'')"
        "''mod.ini''" "''[Constants]\<newline>; SHA256 CHECKSUM: 0\<newline>''"]
  show ?thesis by simp
qed

text \<open>
  C5 (trailer format), as stated for every input text: the appended trailer is the
  last line of the result. It fails for a text whose last line is not ended by a line
  feed: the trailer continues that line.
\<close>

theorem unfinished_line_counterexample:
  "readlines (with_checksum ''abc'') =
     [''abc; SHA256 CHECKSUM: '' @ sha256_hexdigest (encode_utf8 ''abc'') @ [newline]]"
proof -
  let ?h = "sha256_hexdigest (encode_utf8 ''abc'')"
  have "newline \<notin> set (''abc'' @ checksum_prefix @ ?h)"
    using stamp_no_newline [OF sha256_hexdigest_lower_hex, of "encode_utf8 ''abc''"]
    by (simp add: newline_def)
  then have "readlines ((''abc'' @ checksum_prefix @ ?h) @ [newline]) =
      [(''abc'' @ checksum_prefix @ ?h) @ [newline]]"
    by (rule readlines_one_line)
  then show ?thesis
    by (simp add: with_checksum_def checksum_prefix_def)
qed

text \<open>
  C5, amended: for every input text, \<open>with_checksum\<close> returns the text unchanged
  followed by the prefix, 64 lowercase hexadecimal digits and a line feed, which
  together are exactly one line; that line is the last line of the result exactly when
  the text is empty or ends with a line feed.
\<close>

theorem with_checksum_trailer:
  "(let h = sha256_hexdigest (encode_utf8 t);
        trailer = ''; SHA256 CHECKSUM: '' @ h @ [newline]
    in with_checksum t = t @ trailer \<and>
       length h = 64 \<and> list_all lower_hex h \<and>
       readlines trailer = [trailer] \<and>
       (last (readlines (with_checksum t)) = trailer) = complete_lines t)"
proof -
  let ?h = "sha256_hexdigest (encode_utf8 t)"
  let ?trailer = "checksum_prefix @ ?h @ [newline]"
  have hex: "list_all lower_hex ?h" by (rule sha256_hexdigest_lower_hex)
  have w: "with_checksum t = t @ ?trailer"
    by (simp add: with_checksum_def checksum_prefix_def)
  have "readlines ((checksum_prefix @ ?h) @ [newline]) = [(checksum_prefix @ ?h) @ [newline]]"
    by (rule readlines_one_line) (rule stamp_no_newline [OF hex])
  then have one: "readlines ?trailer = [?trailer]" by simp
  then have "last (readlines (with_checksum t)) = ?trailer" if "complete_lines t"
    using that by (simp add: w readlines_append)
  moreover have "complete_lines t" if "last (readlines (with_checksum t)) = ?trailer"
    using that unfolding w by (rule last_line_complete) simp
  ultimately have "(last (readlines (with_checksum t)) = ?trailer) = complete_lines t"
    by blast
  with w one hex length_sha256_hexdigest [of "encode_utf8 t"] show ?thesis
    by (simp add: Let_def checksum_prefix_def)
qed

theorem with_checksum_trailer_witness:
  "complete_lines ''a\<newline>'' \<and>
   (let h = sha256_hexdigest (encode_utf8 ''a\<newline>'');
        trailer = ''; SHA256 CHECKSUM: '' @ h @ [newline]
    in with_checksum ''a\<newline>'' = ''a\<newline>'' @ trailer \<and>
       length h = 64 \<and> list_all lower_hex h \<and>
       readlines trailer = [trailer] \<and>
       last (readlines (with_checksum ''a\<newline>'')) = trailer)"
proof -
  have "complete_lines ''a\<newline>''"
    by (simp add: complete_lines_def newline_def)
  with with_checksum_trailer [of "''a\<newline>''"] show ?thesis
    unfolding Let_def by blast
qed

text \<open>
  C6 (fail-open on a garbled trailer), as stated: a last line with the right prefix
  and a garbled hash value is reported as not edited. It fails: the garbled value is
  compared with the recomputed digest like any other, they differ, and the answer is
  \<open>True\<close>.
\<close>

theorem garbled_hash_counterexample:
  "is_ini_edited
     (Map.empty(''mod.ini'' \<mapsto> ''[Constants]\<newline>; SHA256 CHECKSUM: garbled\<newline>''))
     ''mod.ini'' = Inr True"
proof -
  have "sha256_hexdigest (encode_utf8 (concat (butlast
          [''[Constants]\<newline>'', ''; SHA256 CHECKSUM: garbled\<newline>'']))) \<noteq> ''garbled''"
    by (rule digest_neq_length) simp
  then have "is_ini_edited_data
      [''[Constants]\<newline>'', ''; SHA256 CHECKSUM: garbled\<newline>''] = Inr True"
    by (subst stamp_line_result [where g = "''garbled''"])
       (simp_all add: garbled_line_strip)
  moreover have n: "CR \<notin> set ''[Constants]\<newline>; SHA256 CHECKSUM: garbled\<newline>''"
    by (simp add: CR_def)
  ultimately show ?thesis
    by (simp only: is_ini_edited_read_file [OF n] garbled_file_lines)
qed

text \<open>
  C6, amended: for every file with at least one line, a last line that does not
  start with the prefix once stripped is reported as not edited (\<open>False\<close>); a last
  line that starts with the prefix and holds a hash value other than the recomputed
  digest, a garbled one included, is reported as edited (\<open>True\<close>).
\<close>

theorem malformed_trailer:
  assumes "fs ini_path = Some f" and "f \<noteq> []"
  shows "(\<not> startswith (strip (last (readlines (universal_newlines f)))) checksum_prefix \<longrightarrow>
            is_ini_edited fs ini_path = Inr False) \<and>
         (startswith (strip (last (readlines (universal_newlines f)))) checksum_prefix \<and>
          replace checksum_prefix [] (strip (last (readlines (universal_newlines f)))) \<noteq>
            sha256_hexdigest
              (encode_utf8 (concat (butlast (readlines (universal_newlines f))))) \<longrightarrow>
            is_ini_edited fs ini_path = Inr True)"
  using assms
  by (auto simp add: is_ini_edited_def is_ini_edited_data_def readlines_eq_Nil
      universal_newlines_eq_Nil Let_def)

theorem malformed_trailer_witness:
  "''[Constants]\<newline>; SHA256 CHECKSUM: garbled\<newline>'' \<noteq> [] \<and>
   startswith
     (strip (last (readlines
        (universal_newlines ''[Constants]\<newline>; SHA256 CHECKSUM: garbled\<newline>''))))
     checksum_prefix \<and>
   replace checksum_prefix []
     (strip (last (readlines
        (universal_newlines ''[Constants]\<newline>; SHA256 CHECKSUM: garbled\<newline>'')))) \<noteq>
   sha256_hexdigest (encode_utf8
     (concat (butlast (readlines
        (universal_newlines ''[Constants]\<newline>; SHA256 CHECKSUM: garbled\<newline>''))))) \<and>
   is_ini_edited
     (Map.empty(''mod.ini'' \<mapsto> ''[Constants]\<newline>; SHA256 CHECKSUM: garbled\<newline>''))
     ''mod.ini'' = Inr True"
proof -
  let ?f = "''[Constants]\<newline>; SHA256 CHECKSUM: garbled\<newline>''"
  have u: "universal_newlines ?f = ?f"
    by (rule universal_newlines_id) (simp add: CR_def)
  have s: "strip (last (readlines (universal_newlines ?f))) = checksum_prefix @ ''garbled''"
    by (simp add: u garbled_file_lines garbled_line_strip)
  have a: "startswith (strip (last (readlines (universal_newlines ?f)))) checksum_prefix"
    by (simp add: s startswith_def)
  have "replace checksum_prefix [] (checksum_prefix @ ''garbled'') = ''garbled''"
    by (simp add: replace_at_start replace_absent checksum_prefix_facts)
  then have b: "replace checksum_prefix [] (strip (last (readlines (universal_newlines ?f)))) \<noteq>
      sha256_hexdigest (encode_utf8 (concat (butlast (readlines (universal_newlines ?f)))))"
    using digest_neq_length
      [of "''garbled''" "encode_utf8 (concat (butlast (readlines (universal_newlines ?f))))"]
    by (simp add: s)
  from malformed_trailer [of "Map.empty(''mod.ini'' \<mapsto> ?f)" "''mod.ini''" ?f] a b
  show ?thesis by simp
qed




text \<open>
  C9 (file with no line): \<open>is_ini_edited\<close> raises \<open>IndexError\<close> exactly on a file
  with no line, and returns a boolean exactly on a file with at least one line, so
  the fail-open answer needs a file with at least one line.
\<close>

theorem empty_file_index_error:
  assumes "fs ini_path = Some f"
  shows "(is_ini_edited fs ini_path = Inl IndexError) = (f = []) \<and>
         (\<exists>b. is_ini_edited fs ini_path = Inr b) = (f \<noteq> [])"
  using assms
  by (auto simp add: is_ini_edited_def is_ini_edited_data_def readlines_eq_Nil
      universal_newlines_eq_Nil Let_def)

theorem empty_file_index_error_witness:
  "(Map.empty(''mod.ini'' \<mapsto> [])) ''mod.ini'' = Some [] \<and>
   is_ini_edited (Map.empty(''mod.ini'' \<mapsto> [])) ''mod.ini'' = Inl IndexError"
  using empty_file_index_error [of "Map.empty(''mod.ini'' \<mapsto> [])" "''mod.ini''" "[]"]
  by simp

text \<open>
  C10 (whitespace around the trailer): the last line is stripped before the prefix is
  tested and the claimed hash is taken. So a last line made of whitespace, the prefix,
  a hash value and whitespace is recognized as a trailer and verified: the result is
  \<open>True\<close> exactly when the digest of the lines before it differs from that hash
  value, as for the line without the whitespace around it; and whitespace around any
  last line changes nothing of the result.
\<close>

theorem stamp_whitespace_ignored:
  assumes "\<forall>c \<in> set a. isspace c" and "\<forall>c \<in> set b. isspace c"
  shows "(g \<noteq> [] \<and> \<not> isspace (last g) \<and> CHR '';'' \<notin> set g \<longrightarrow>
            is_ini_edited_data (body @ [a @ ''; SHA256 CHECKSUM: '' @ g @ b]) =
              Inr (sha256_hexdigest (encode_utf8 (concat body)) \<noteq> g) \<and>
            is_ini_edited_data (body @ [''; SHA256 CHECKSUM: '' @ g]) =
              Inr (sha256_hexdigest (encode_utf8 (concat body)) \<noteq> g)) \<and>
         is_ini_edited_data (body @ [a @ l @ b]) = is_ini_edited_data (body @ [l])"
proof -
  have same: "is_ini_edited_data (body @ [a @ l @ b]) = is_ini_edited_data (body @ [l])" for l
    using assms by (simp add: is_ini_edited_data_def strip_whitespace Let_def)
  have "is_ini_edited_data (body @ [checksum_prefix @ g]) =
      Inr (sha256_hexdigest (encode_utf8 (concat body)) \<noteq> g)"
    if "g \<noteq> []" and "\<not> isspace (last g)" and "CHR '';'' \<notin> set g"
  proof -
    from that have "strip (checksum_prefix @ g) = checksum_prefix @ g"
      by (intro strip_id) (use checksum_prefix_facts in auto)
    with that(3) show ?thesis
      using stamp_line_result [of "body @ [checksum_prefix @ g]" g] by simp
  qed
  with same [of "checksum_prefix @ g"] same [of l] show ?thesis
    by (simp add: checksum_prefix_def)
qed

theorem stamp_whitespace_ignored_witness:
  "list_all isspace ''  '' \<and> list_all isspace '' \<newline>'' \<and>
   is_ini_edited_data
     ([''[Constants]\<newline>''] @ [''  '' @ ''; SHA256 CHECKSUM: '' @ ''0'' @ '' \<newline>'']) =
     Inr True \<and>
   is_ini_edited_data
     ([''[Constants]\<newline>''] @
      [''  '' @ ''; SHA256 CHECKSUM: '' @
       sha256_hexdigest (encode_utf8 ''[Constants]\<newline>'') @ '' \<newline>'']) = Inr False"
proof -
  have a: "\<forall>c \<in> set ''  ''. isspace c" and b: "\<forall>c \<in> set '' \<newline>''. isspace c"
    by (simp_all add: isspace_def)
  let ?h = "sha256_hexdigest (encode_utf8 ''[Constants]\<newline>'')"
  have hex: "list_all lower_hex ?h" by (rule sha256_hexdigest_lower_hex)
  have ne: "?h \<noteq> []" using length_sha256_hexdigest [of "encode_utf8 ''[Constants]\<newline>''"] by auto
  from ne have "last ?h \<in> set ?h" by (rule last_in_set)
  with hex have "lower_hex (last ?h)" by (simp only: list_all_iff)
  then have "\<not> isspace (last ?h)" by (rule lower_hex_not_space)
  moreover from hex have "CHR '';'' \<notin> set ?h"
    using lower_hex_not_semicolon by (fastforce simp only: list_all_iff)
  ultimately have h: "?h \<noteq> [] \<and> \<not> isspace (last ?h) \<and> CHR '';'' \<notin> set ?h"
    using ne by blast
  have z: "''0'' \<noteq> [] \<and> \<not> isspace (last ''0'') \<and> CHR '';'' \<notin> set ''0''"
    by (simp add: isspace_def)
  have d: "sha256_hexdigest (encode_utf8 (concat [''[Constants]\<newline>''])) \<noteq> ''0''"
    by (rule digest_neq_length) simp
  from stamp_whitespace_ignored [OF a b, of "''0''" "[''[Constants]\<newline>'']" "[]", THEN conjunct1] z d
  have first: "is_ini_edited_data
     ([''[Constants]\<newline>''] @ [''  '' @ ''; SHA256 CHECKSUM: '' @ ''0'' @ '' \<newline>'']) = Inr True"
    by simp
  from stamp_whitespace_ignored [OF a b, of ?h "[''[Constants]\<newline>'']" "[]", THEN conjunct1] h
  have second: "is_ini_edited_data
     ([''[Constants]\<newline>''] @ [''  '' @ ''; SHA256 CHECKSUM: '' @ ?h @ '' \<newline>'']) = Inr False"
    by simp
  from first second a b show ?thesis by (simp only: list_all_iff) 
qed

section \<open>Group order\<close>

text \<open>
  C7 (group ordering). Whatever the order of the calls that populate the builder, the
  built document is the leading header followed by the groups in ascending order of
  their index, each made of the calls that name it, its sections in the order they
  were added. In particular \<open>IniMaker\<close>, with shape keys, registers its groups in
  the order 0, 4, 5, 2, 1, 3, 6, 7, 8, and its document presents the groups 0 to 8 in
  this order, each with the sections added to it, in insertion order.
\<close>

theorem groups_render_in_index_order:
  "build r (run_calls ((IniBuilder skip)\<lparr>header := h\<rparr>) cs) =
     h @ concat (map (\<lambda>i. render_group (r skip) (group_of i cs))
                     (sorted_list_of_set (call_group ` set cs))) \<and>
   group_sections (group_of i cs) = sections_added i cs \<and>
   (0 < custom_vertex_count \<longrightarrow>
      remdups_adj (map call_group (post_init_calls custom_vertex_count sections msg)) =
        [0, 4, 5, 2, 1, 3, 6, 7, 8] \<and>
      build r (post_init comment_code custom_vertex_count sections msg) =
        ''; WWMI ALPHA-1 INI\<newline>\<newline>'' @
        concat (map (\<lambda>i. render_group (r (\<not> comment_code))
                            (group_of i (post_init_calls custom_vertex_count sections msg)))
                    [0, 1, 2, 3, 4, 5, 6, 7, 8]) \<and>
      (\<forall>i < 9. group_sections (group_of i (post_init_calls custom_vertex_count sections msg)) =
         sections i))"
proof -
  have upt: "[0..<9] = [0, 1, 2, 3, 4, 5, 6, 7, 8::nat]"
    by (simp add: upt_rec)
  have general: "build r (run_calls ((IniBuilder skip)\<lparr>header := h\<rparr>) cs) =
     h @ concat (map (\<lambda>i. render_group (r skip) (group_of i cs))
                     (sorted_list_of_set (call_group ` set cs)))" for skip h and cs :: "'a builder_call list"
    using build_run_calls [of "(IniBuilder skip)\<lparr>header := h\<rparr>" r cs]
    by (simp add: IniBuilder_def)
  have "build r (post_init comment_code custom_vertex_count sections msg) =
        ''; WWMI ALPHA-1 INI\<newline>\<newline>'' @
        concat (map (\<lambda>i. render_group (r (\<not> comment_code))
                            (group_of i (post_init_calls custom_vertex_count sections msg)))
                    [0, 1, 2, 3, 4, 5, 6, 7, 8])"
    if "0 < custom_vertex_count"
    unfolding post_init_def general post_init_groups [OF that] sorted_list_of_set_range upt ..
  then show ?thesis
    by (simp add: general sections_group_of post_init_order post_init_sections)
qed

theorem groups_render_in_index_order_witness:
  "(0::int) < 1 \<and>
   remdups_adj (map call_group
     (post_init_calls 1 (\<lambda>i. [i, i + 10]) ''msg'' :: nat builder_call list)) =
     [0, 4, 5, 2, 1, 3, 6, 7, 8] \<and>
   build (\<lambda>skip s. ''s'') (post_init True 1 (\<lambda>i. [i, i + 10]) ''msg'') =
     ''; WWMI ALPHA-1 INI\<newline>\<newline>'' @
     concat (map (\<lambda>i. render_group (\<lambda>s. ''s'')
                         (group_of i (post_init_calls 1 (\<lambda>i. [i, i + 10]) ''msg'')))
                 [0, 1, 2, 3, 4, 5, 6, 7, 8]) \<and>
   group_sections (group_of 4 (post_init_calls 1 (\<lambda>i. [i, i + 10]) ''msg'')) = [4, 14]"
proof -
  note w = groups_render_in_index_order
    [where r = "\<lambda>skip s. ''s''" and skip = False and h = "[]"
       and cs = "[] :: nat builder_call list" and i = 0 and custom_vertex_count = 1
       and sections = "\<lambda>i. [i, i + 10]" and msg = "''msg''" and comment_code = True]
  from w have "\<forall>i<9. group_sections
      (group_of i (post_init_calls 1 (\<lambda>i. [i, i + 10]) ''msg'')) = [i, i + 10]"
    by simp
  then have "group_sections (group_of 4 (post_init_calls 1 (\<lambda>i. [i, i + 10]) ''msg'')) =
      [4, 14]"
    by auto
  with w show ?thesis by simp
qed

end
